theory Spec2Isabelle
  imports Complex_Main "HOL-Library.Word"
begin

unbundle bit_operations_syntax

section \<open>The generator of internal/wuid.go\<close>

subsection \<open>Constants\<close>

text \<open>
  \<^verbatim>\<open>CriticalValue uint64 = (1 << 40) * 8 / 10\<close> is a Go constant expression: it is
  evaluated exactly, on integers, and the result is converted to \<open>uint64\<close>.
  \<^verbatim>\<open>RenewInterval uint64 = 0x01FFFFFFFF\<close>.
\<close>

definition CriticalValue :: "64 word" where
  "CriticalValue = word_of_int ((push_bit 40 1 * 8) div 10)"

definition RenewInterval :: "64 word" where
  "RenewInterval = 0x01FFFFFFFF"

subsection \<open>Data\<close>

text \<open>
  The \<open>Logger\<close> interface has the two methods \<open>Info\<close> and \<open>Warn\<close>. A logger is
  modelled by the messages it has received so far, in order; the field \<open>Logger\<close> of the
  generator is \<open>None\<close> for a nil interface.
\<close>

datatype log_entry = Info string | Warn string

type_synonym logger = "log_entry list option"

text \<open>
  \<open>Renew\<close> is a \<^verbatim>\<open>func() error\<close>. One call of it either returns an error value (\<open>None\<close>
  for nil, otherwise the text of \<^verbatim>\<open>err.Error()\<close>) or panics with a value (given by its
  \<^verbatim>\<open>%+v\<close> text). The closure may write the generator's value on its way (it is meant to call
  \<open>Reset\<close>), so it maps the value it finds to its outcome and the value it leaves. A nil
  function value is \<open>None\<close>.
\<close>

datatype renew_outcome = Returns "string option" | Panics string

type_synonym renew_fn = "64 word \<Rightarrow> renew_outcome \<times> 64 word"

text \<open>The struct \<open>WUID\<close>. The embedded mutex guards only the read of \<open>Renew\<close> and has no
  state of its own in a sequential run.\<close>

record WUID =
  Section :: "8 word"
  N :: "64 word"
  Tag :: string
  Logger :: logger
  Renew :: "renew_fn option"

type_synonym Option = "WUID \<Rightarrow> WUID"

subsection \<open>Construction\<close>

text \<open>\<open>WithSection\<close> panics (\<open>Inl\<close>, with the panic's message) before it builds the option
  when the section is 0 or at least 16.\<close>

definition WithSection :: "8 word \<Rightarrow> string + Option" where
  "WithSection section =
     (if section = 0 \<or> section \<ge> 16 then Inl ''section must be in between [1, 15]''
      else Inr (\<lambda>w. w\<lparr>Section := section\<rparr>))"

text \<open>\<open>NewWUID\<close> sets the tag and the logger; every other field has Go's zero value. The
  options are then applied in order.\<close>

definition NewWUID :: "string \<Rightarrow> logger \<Rightarrow> Option list \<Rightarrow> WUID" where
  "NewWUID tag lg opts =
     fold (\<lambda>opt w. opt w) opts
       \<lparr>Section = 0, N = 0, Tag = tag, Logger = lg, Renew = None\<rparr>"

text \<open>
  The call \<^verbatim>\<open>NewWUID(tag, logger, WithSection(section))\<close>: Go evaluates the arguments of a
  call before the call, so a panic of \<open>WithSection\<close> ends the construction with no generator.
\<close>

definition NewWUID_WithSection :: "string \<Rightarrow> logger \<Rightarrow> 8 word \<Rightarrow> string + WUID" where
  "NewWUID_WithSection tag lg section =
     (case WithSection section of
        Inl p \<Rightarrow> Inl p
      | Inr opt \<Rightarrow> Inr (NewWUID tag lg [opt]))"

subsection \<open>Issuing\<close>

text \<open>
  \<open>Next\<close> adds 1 to the 64-bit value and returns the sum. When the trigger condition holds
  it reads \<open>Renew\<close> and starts a goroutine with it; the goroutine is not awaited. The model
  returns the identifier, the generator and the goroutine it started, if any (the value of
  \<open>Renew\<close> the goroutine was given).
\<close>

definition Next :: "WUID \<Rightarrow> 64 word \<times> WUID \<times> renew_fn option option" where
  "Next w =
     (let x = N w + 1;
          w' = w\<lparr>N := x\<rparr>
      in if x AND 0xFFFFFFFFFF \<ge> CriticalValue \<and> x AND RenewInterval = 0
         then (x, w', Some (Renew w'))
         else (x, w', None))"

text \<open>\<open>k\<close> calls of \<open>Next\<close> one after the other: the identifiers returned, in order, and
  the generator left.\<close>

fun Next_times :: "nat \<Rightarrow> WUID \<Rightarrow> 64 word list \<times> WUID" where
  "Next_times 0 w = ([], w)"
| "Next_times (Suc k) w =
     (case Next w of (x, w', _) \<Rightarrow>
        (case Next_times k w' of (xs, w'') \<Rightarrow> (x # xs, w'')))"

subsection \<open>The renewal goroutine\<close>

text \<open>Calling the function value: a nil function panics with Go's run-time error.\<close>

definition call_renew :: "renew_fn option \<Rightarrow> 64 word \<Rightarrow> renew_outcome \<times> 64 word" where
  "call_renew renew n =
     (case renew of
        None \<Rightarrow> (Panics ''runtime error: invalid memory address or nil pointer dereference'', n)
      | Some f \<Rightarrow> f n)"

definition log_to :: "log_entry \<Rightarrow> WUID \<Rightarrow> WUID" where
  "log_to e w = w\<lparr>Logger := map_option (\<lambda>es. es @ [e]) (Logger w)\<rparr>"

text \<open>
  The body of the goroutine up to the point where it returns or panics: it calls \<open>renew\<close>,
  returns at once when there is no logger, and otherwise logs the result. The first
  component is the panic in flight when the body ends, if any.
\<close>

definition renew_body :: "renew_fn option \<Rightarrow> WUID \<Rightarrow> string option \<times> WUID" where
  "renew_body renew w =
     (case call_renew renew (N w) of
        (Panics r, n') \<Rightarrow> (Some r, w\<lparr>N := n'\<rparr>)
      | (Returns err, n') \<Rightarrow>
          (let w1 = w\<lparr>N := n'\<rparr> in
           if Logger w1 = None then (None, w1)
           else (case err of
                   Some e \<Rightarrow>
                     (None, log_to (Warn (''[wuid] renew failed. tag: '' @ Tag w1 @ '', reason: '' @ e)) w1)
                 | None \<Rightarrow>
                     (None, log_to (Info (''[wuid] renew succeeded. tag: '' @ Tag w1)) w1))))"

text \<open>
  The goroutine: the body, then the deferred function. \<open>recover()\<close> returns the value of the
  panic in flight and stops the panic, or nil when there is none (a panic's value is never
  nil: \<^verbatim>\<open>panic(nil)\<close> is a run-time panic of its own). The first component is the panic
  that leaves the goroutine, if any.
\<close>

definition renew_goroutine :: "renew_fn option \<Rightarrow> WUID \<Rightarrow> string option \<times> WUID" where
  "renew_goroutine renew w =
     (case renew_body renew w of
        (Some r, w1) \<Rightarrow>
          (if Logger w1 \<noteq> None
           then (None, log_to (Warn (''[wuid] panic. tag: '' @ Tag w1 @ '', reason: '' @ r)) w1)
           else (None, w1))
      | (None, w1) \<Rightarrow> (None, w1))"

subsection \<open>Installing and validating an epoch\<close>

definition Reset :: "WUID \<Rightarrow> 64 word \<Rightarrow> WUID" where
  "Reset w n =
     (if Section w = 0 then w\<lparr>N := n\<rparr>
      else w\<lparr>N := (n AND 0x0FFFFFFFFFFFFFFF) OR push_bit 60 (ucast (Section w))\<rparr>)"

text \<open>\<open>VerifyH24\<close> returns the error's text, or \<open>None\<close> for nil.\<close>

definition VerifyH24 :: "WUID \<Rightarrow> 64 word \<Rightarrow> string option" where
  "VerifyH24 w h24 =
     (if h24 = 0 then Some (''the h24 should not be 0. tag: '' @ Tag w)
      else if Section w = 0 then
        (if h24 > 0xFFFFFF then Some (''the h24 should not exceed 0xFFFFFF. tag: '' @ Tag w)
         else None)
      else
        (if h24 > 0x0FFFFF then Some (''the h20 should not exceed 0x0FFFFF. tag: '' @ Tag w)
         else None))"

subsection \<open>Histories of a generator\<close>

text \<open>
  Modelled from the spec: the renewal callback lives outside \<^verbatim>\<open>internal/wuid.go\<close>. Its
  contract is to pass the epoch it obtained through \<open>VerifyH24\<close> and, on success, to call
  \<open>Reset\<close> with the epoch combined with an initial counter (the epoch shifted left by 40,
  or-ed with the counter); on an error it installs nothing.
\<close>

definition install :: "WUID \<Rightarrow> 64 word \<Rightarrow> 64 word \<Rightarrow> WUID" where
  "install w h24 c =
     (case VerifyH24 w h24 of
        Some e \<Rightarrow> w
      | None \<Rightarrow> Reset w (push_bit 40 h24 OR c))"

text \<open>A history is a list of operations on one generator: calls of \<open>Next\<close> and installs
  of an epoch with an initial counter.\<close>

datatype operation = OpNext | OpInstall "64 word" "64 word"

fun step :: "WUID \<Rightarrow> operation \<Rightarrow> WUID" where
  "step w OpNext = fst (snd (Next w))"
| "step w (OpInstall h24 c) = install w h24 c"

definition run :: "WUID \<Rightarrow> operation list \<Rightarrow> WUID" where
  "run w ops = foldl step w ops"

text \<open>
  The layout \<open>Reset\<close> and \<open>VerifyH24\<close> give the value: the counter in bits 0 to 39; on an
  unsharded generator the epoch in bits 40 to 63; on a sharded one the epoch in bits 40 to
  59 and the section in bits 60 to 63.
\<close>

definition epoch_of :: "WUID \<Rightarrow> 64 word" where
  "epoch_of w = (if Section w = 0 then drop_bit 40 (N w) else take_bit 20 (drop_bit 40 (N w)))"

definition encoded :: "WUID \<Rightarrow> bool" where
  "encoded w =
     (if Section w = 0 then epoch_of w \<noteq> 0
      else epoch_of w \<noteq> 0 \<and> drop_bit 60 (N w) = ucast (Section w))"

text \<open>
  The one call of \<open>Next\<close> that destroys this layout is the one whose carry runs out of the
  epoch field: on an unsharded generator the call that finds all 64 bits one, on a sharded
  generator the call that finds the low 60 bits (counter and epoch) all one. A history is
  epoch-safe from a state when it holds no such call. Installs are not restricted: an
  install validates its epoch itself.
\<close>

definition next_safe :: "WUID \<Rightarrow> bool" where
  "next_safe w = (if Section w = 0 then N w \<noteq> - 1 else take_bit 60 (N w) \<noteq> mask 60)"

fun epoch_safe :: "WUID \<Rightarrow> operation list \<Rightarrow> bool" where
  "epoch_safe w [] = True"
| "epoch_safe w (OpNext # ops) = (next_safe w \<and> epoch_safe (step w OpNext) ops)"
| "epoch_safe w (OpInstall h24 c # ops) = epoch_safe (step w (OpInstall h24 c)) ops"

section \<open>Auxiliary facts\<close>

subsection \<open>Numerals and masks\<close>

lemma mask60_numeral: "(0x0FFFFFFFFFFFFFFF :: 64 word) = mask 60"
  by (simp add: mask_eq_exp_minus_1)

lemma RenewInterval_mask: "RenewInterval = mask 33"
  by (simp add: RenewInterval_def mask_eq_exp_minus_1)

lemma section_small:
  fixes s :: "8 word"
  assumes "s \<le> 15"
  shows "take_bit 4 s = s"
proof -
  have "s < 16" using assms by (rule le_less_trans) simp
  then have "s < 2 ^ 4" by simp
  then show ?thesis by (simp only: take_bit_eq_mask less_mask_eq)
qed

lemma h24_small:
  fixes h :: "64 word"
  assumes "\<not> h > 0xFFFFFF"
  shows "take_bit 24 h = h"
proof -
  have "h \<le> 0xFFFFFF" using assms by simp
  then have "h < 0x1000000" by (rule le_less_trans) simp
  then have "h < 2 ^ 24" by simp
  then show ?thesis by (simp only: take_bit_eq_mask less_mask_eq)
qed

lemma h20_small:
  fixes h :: "64 word"
  assumes "\<not> h > 0x0FFFFF"
  shows "take_bit 20 h = h"
proof -
  have "h \<le> 0x0FFFFF" using assms by simp
  then have "h < 0x100000" by (rule le_less_trans) simp
  then have "h < 2 ^ 20" by simp
  then show ?thesis by (simp only: take_bit_eq_mask less_mask_eq)
qed

lemma counter_small:
  fixes c :: "64 word"
  assumes "c \<le> mask 40"
  shows "take_bit 40 c = c"
proof -
  have "c \<le> 0xFFFFFFFFFF" using assms by (simp add: mask_eq_exp_minus_1)
  then have "c < 0x10000000000" by (rule le_less_trans) simp
  then have "c < 2 ^ 40" by simp
  then show ?thesis by (simp only: take_bit_eq_mask less_mask_eq)
qed

subsection \<open>Bit fields of the value \<open>Reset\<close> stores\<close>

lemma unsharded_epoch_bits:
  "drop_bit 40 (push_bit 40 (take_bit 24 h) OR take_bit 40 c :: 64 word) = take_bit 24 h"
  by (rule bit_word_eqI) (auto simp add: bit_simps)

lemma sharded_epoch_bits:
  "take_bit 20 (drop_bit 40 (((push_bit 40 (take_bit 20 h) OR take_bit 40 c) AND mask 60)
       OR push_bit 60 (ucast (s :: 8 word)) :: 64 word)) = take_bit 20 h"
  by (rule bit_word_eqI) (auto simp add: bit_simps)

lemma sharded_top_bits:
  "drop_bit 60 ((n AND mask 60) OR push_bit 60 (ucast (take_bit 4 (s :: 8 word))) :: 64 word)
     = ucast (take_bit 4 s)"
  by (rule bit_word_eqI) (auto simp add: bit_simps)

lemma sharded_low_bits:
  "take_bit 60 ((n AND mask 60) OR push_bit 60 (ucast (s :: 8 word)) :: 64 word) = take_bit 60 n"
  by (rule bit_word_eqI) (auto simp add: bit_simps)

subsection \<open>Adding one to a 64-bit value with a 40-bit counter\<close>

lemma nat_succ_div_mod:
  fixes u m :: nat
  assumes "Suc (u mod m) < m"
  shows "Suc u div m = u div m" and "Suc u mod m = Suc (u mod m)"
proof -
  have "Suc u = u div m * m + Suc (u mod m)" by simp
  with assms show "Suc u div m = u div m"
    by (metis div_mult_self3 div_less add.commute add_0 not_less_zero mult_zero_right)
  show "Suc u mod m = Suc (u mod m)" using assms by (simp add: mod_Suc)
qed

lemma nat_carry_div_mod:
  fixes u m :: nat
  assumes "Suc (u mod m) = m"
  shows "Suc u div m = Suc (u div m)" and "Suc u mod m = 0"
  using assms by (simp_all add: div_Suc mod_Suc)

lemma unat_take_bit40: "unat (take_bit 40 (n :: 64 word)) = unat n mod 2 ^ 40"
  unfolding unsigned_take_bit_eq by (rule take_bit_eq_mod)

lemma unat_drop_bit40: "unat (drop_bit 40 (n :: 64 word)) = unat n div 2 ^ 40"
  unfolding unat_drop_bit_eq by (rule drop_bit_eq_div)

lemma unat_mask40: "unat (mask 40 :: 64 word) = 2 ^ 40 - 1"
  by (simp add: mask_eq_exp_minus_1)

lemma counter_not_full:
  fixes n :: "64 word"
  assumes "take_bit 40 n \<noteq> mask 40"
  shows "Suc (unat n mod 2 ^ 40) < 2 ^ 40"
proof -
  have "unat (take_bit 40 n) \<noteq> unat (mask 40 :: 64 word)"
    using assms by (simp only: word_unat_eq_iff not_False_eq_True)
  then have "unat n mod 2 ^ 40 \<noteq> 2 ^ 40 - 1"
    by (simp only: unat_take_bit40 unat_mask40 not_False_eq_True)
  moreover have "unat n mod 2 ^ 40 < 2 ^ 40" by simp
  ultimately show ?thesis by linarith
qed

lemma unat_succ_no_wrap:
  fixes n :: "64 word"
  assumes "take_bit 40 n \<noteq> mask 40"
  shows "unat (n + 1) = Suc (unat n)"
proof -
  have "n \<noteq> - 1" using assms by auto
  then have "1 + n \<noteq> 0" by (metis add_eq_0_iff)
  then show ?thesis using unatSuc[of n] by (simp add: add.commute)
qed

lemma succ_without_carry:
  fixes n :: "64 word"
  assumes "take_bit 40 n \<noteq> mask 40"
  shows "drop_bit 40 (n + 1) = drop_bit 40 n" and "take_bit 40 (n + 1) = take_bit 40 n + 1"
proof -
  note h = counter_not_full[OF assms] and s = unat_succ_no_wrap[OF assms]
  show "drop_bit 40 (n + 1) = drop_bit 40 n"
    unfolding word_unat_eq_iff unat_drop_bit40 s using nat_succ_div_mod(1)[OF h] .
  have "unat (take_bit 40 n + 1) = Suc (unat n mod 2 ^ 40)"
    using h by (simp add: unat_word_ariths unat_take_bit40)
  then show "take_bit 40 (n + 1) = take_bit 40 n + 1"
    unfolding word_unat_eq_iff unat_take_bit40 s using nat_succ_div_mod(2)[OF h] by simp
qed

lemma succ_with_carry:
  fixes n :: "64 word"
  assumes "take_bit 40 n = mask 40"
  shows "drop_bit 40 (n + 1) \<noteq> drop_bit 40 n"
proof (cases "n = - 1")
  case True
  have "drop_bit 40 (- 1 :: 64 word) \<noteq> 0"
    by (simp add: drop_bit_eq_zero_iff_not_bit_last bit_simps)
  then show ?thesis using True by simp
next
  case False
  then have "1 + n \<noteq> 0" by (metis add_eq_0_iff)
  then have s: "unat (n + 1) = Suc (unat n)" using unatSuc[of n] by (simp add: add.commute)
  have "unat (take_bit 40 n) = unat (mask 40 :: 64 word)" using assms by simp
  then have "Suc (unat n mod 2 ^ 40) = 2 ^ 40"
    unfolding unat_take_bit40 unat_mask40 by simp
  then have "Suc (unat n) div 2 ^ 40 = Suc (unat n div 2 ^ 40)"
    by (rule nat_carry_div_mod(1))
  then have "unat (drop_bit 40 (n + 1)) \<noteq> unat (drop_bit 40 n)"
    unfolding unat_drop_bit40 s by simp
  then show ?thesis by auto
qed

lemma take_bit40_succ:
  fixes n :: "64 word"
  shows "take_bit 40 (n + 1) = take_bit 40 (take_bit 40 n + 1)"
proof -
  have d: "(2::nat) ^ 40 dvd 2 ^ 64" by (rule le_imp_power_dvd) simp
  have "unat (take_bit 40 (n + 1)) = (unat n + 1) mod 2 ^ 64 mod 2 ^ 40"
    unfolding unat_take_bit40 by (simp add: unat_word_ariths)
  also have "\<dots> = (unat n + 1) mod 2 ^ 40" using d by (rule mod_mod_cancel)
  also have "\<dots> = (unat n mod 2 ^ 40 + 1) mod 2 ^ 40" by (rule mod_add_left_eq[symmetric])
  also have "\<dots> = (unat n mod 2 ^ 40 + 1) mod 2 ^ 64 mod 2 ^ 40"
    using d by (rule mod_mod_cancel[symmetric])
  also have "\<dots> = unat (take_bit 40 (take_bit 40 n + 1))"
    unfolding unat_take_bit40[of "take_bit 40 n + 1"]
    by (simp add: unat_word_ariths unat_take_bit40)
  finally show ?thesis by (simp only: word_unat_eq_iff)
qed

subsection \<open>Consecutive calls of \<open>Next\<close>\<close>

lemma Next_simps:
  "fst (Next w) = N w + 1" "fst (snd (Next w)) = w\<lparr>N := N w + 1\<rparr>"
  by (simp_all add: Next_def Let_def)

lemma Next_times_Suc:
  "Next_times (Suc k) w =
     ((N w + 1) # fst (Next_times k (w\<lparr>N := N w + 1\<rparr>)),
      snd (Next_times k (w\<lparr>N := N w + 1\<rparr>)))"
  by (simp add: Next_def Let_def split: prod.splits)

lemma Next_times_fst:
  "fst (Next_times k w) = map (\<lambda>i. N w + of_nat (Suc i)) [0..<k]"
proof (induction k arbitrary: w)
  case 0
  show ?case by simp
next
  case (Suc k)
  have "map (\<lambda>i. N w + of_nat (Suc i)) [0..<Suc k] =
        (N w + 1) # map (\<lambda>i. N w + of_nat (Suc (Suc i))) [0..<k]"
    by (simp only: upt_conv_Cons[of 0 "Suc k"] zero_less_Suc list.map
          map_Suc_upt[symmetric] map_map comp_def)
       simp
  moreover have "fst (Next_times k (w\<lparr>N := N w + 1\<rparr>)) =
        map (\<lambda>i. N w + of_nat (Suc (Suc i))) [0..<k]"
    by (simp add: Suc.IH add.assoc)
  ultimately show ?case by (simp only: Next_times_Suc fst_conv)
qed

lemma Next_times_snd:
  "snd (Next_times k w) = w\<lparr>N := N w + of_nat k\<rparr>"
proof (induction k arbitrary: w)
  case 0
  show ?case by simp
next
  case (Suc k)
  show ?case by (simp only: Next_times_Suc snd_conv Suc.IH) (simp add: add.assoc)
qed

lemma Next_times_distinct:
  assumes "k \<le> 2 ^ 64"
  shows "distinct (fst (Next_times k w))"
proof -
  have "inj_on (\<lambda>i. N w + (of_nat (Suc i) :: 64 word)) {0..<k}"
  proof (rule inj_onI)
    fix i j assume i: "i \<in> {0..<k}" and j: "j \<in> {0..<k}"
      and e: "N w + (of_nat (Suc i) :: 64 word) = N w + of_nat (Suc j)"
    from e have "(of_nat i :: 64 word) = of_nat j" by simp
    then have "unat (of_nat i :: 64 word) = unat (of_nat j :: 64 word)" by simp
    moreover have "i < 2 ^ 64" "j < 2 ^ 64" using i j assms by auto
    ultimately show "i = j" by (simp add: unat_of_nat)
  qed
  then show ?thesis by (simp add: Next_times_fst distinct_map)
qed

subsection \<open>The throttle in a window of \<open>2^33\<close> consecutive values\<close>

lemma dvd_window:
  fixes u k m :: nat
  assumes "k < m"
  shows "(m dvd u + k) = (k = (m - u mod m) mod m)"
proof -
  let ?r = "u mod m"
  have m: "0 < m" using assms by simp
  have r: "?r < m" using m by simp
  have "(m dvd u + k) = (m dvd ?r + k)"
    by (metis dvd_eq_mod_eq_0 mod_add_left_eq)
  also have "\<dots> = (?r + k = 0 \<or> ?r + k = m)"
  proof
    assume "m dvd ?r + k"
    then obtain c where c: "?r + k = m * c" by (auto simp: dvd_def)
    have "?r + k < m * 2" using r assms by linarith
    with c have "c < 2" using m by simp
    then have "c = 0 \<or> c = 1" by auto
    with c show "?r + k = 0 \<or> ?r + k = m" by auto
  next
    assume "?r + k = 0 \<or> ?r + k = m"
    then show "m dvd ?r + k" by auto
  qed
  also have "\<dots> = (k = (m - ?r) mod m)"
  proof (cases "?r = 0")
    case True
    then show ?thesis using assms by auto
  next
    case False
    then have "(m - ?r) mod m = m - ?r" using r by simp
    then show ?thesis using False r by auto
  qed
  finally show ?thesis .
qed

lemma unat_of_nat_small:
  assumes "k < 2 ^ 33"
  shows "unat (of_nat k :: 64 word) = k"
proof -
  have "k < 2 ^ 64" using assms by (rule less_le_trans) simp
  then show ?thesis by (simp add: unat_of_nat)
qed

lemma throttle_iff:
  fixes s :: "64 word"
  assumes "k < 2 ^ 33"
  shows "((s + of_nat k) AND RenewInterval = 0) =
         (k = (2 ^ 33 - unat s mod 2 ^ 33) mod 2 ^ 33)"
proof -
  have d: "(2::nat) ^ 33 dvd 2 ^ 64" by (rule le_imp_power_dvd) simp
  have "((s + of_nat k) AND RenewInterval = 0) = (2 ^ 33 dvd unat (s + of_nat k))"
    by (simp only: RenewInterval_mask and_mask_dvd_nat)
  also have "unat (s + of_nat k) = (unat s + k) mod 2 ^ 64"
    by (simp only: unat_word_ariths unat_of_nat_small[OF assms] len_bit0 len_num1) simp
  also have "((2::nat) ^ 33 dvd (unat s + k) mod 2 ^ 64) = (2 ^ 33 dvd unat s + k)"
    using d by (rule dvd_mod_iff)
  also have "\<dots> = (k = (2 ^ 33 - unat s mod 2 ^ 33) mod 2 ^ 33)"
    using assms by (rule dvd_window)
  finally show ?thesis .
qed

lemma Next_times_nth:
  assumes "i < k"
  shows "fst (Next_times k w) ! i = (N w + 1) + of_nat i"
  using assms by (simp add: Next_times_fst add.assoc)

subsection \<open>Installs and histories\<close>

lemma unsharded_epoch_field:
  "drop_bit 40 (push_bit 40 (take_bit 24 h) OR c :: 64 word) = take_bit 24 h OR drop_bit 40 c"
  by (rule bit_word_eqI) (auto simp add: bit_simps)

lemma sharded_epoch_field:
  "take_bit 20 (drop_bit 40 (((push_bit 40 (take_bit 20 h) OR c) AND mask 60)
       OR push_bit 60 (ucast (s :: 8 word)) :: 64 word))
     = take_bit 20 h OR take_bit 20 (drop_bit 40 c)"
  by (rule bit_word_eqI) (auto simp add: bit_simps)

lemma epoch_field_via_low60:
  "take_bit 20 (drop_bit 40 (n :: 64 word)) = drop_bit 40 (take_bit 60 n)"
  by (simp add: drop_bit_take_bit)

lemma unat_take_bit60: "unat (take_bit 60 (n :: 64 word)) = unat n mod 2 ^ 60"
  unfolding unsigned_take_bit_eq by (rule take_bit_eq_mod)

lemma unat_drop_bit60: "unat (drop_bit 60 (n :: 64 word)) = unat n div 2 ^ 60"
  unfolding unat_drop_bit_eq by (rule drop_bit_eq_div)

lemma unat_mask60: "unat (mask 60 :: 64 word) = 2 ^ 60 - 1"
  by (simp add: mask_eq_exp_minus_1)

lemma unat_succ_if_not_max:
  fixes n :: "64 word"
  assumes "n \<noteq> - 1"
  shows "unat (n + 1) = Suc (unat n)"
proof -
  have "1 + n \<noteq> 0" using assms by (metis add_eq_0_iff)
  then show ?thesis using unatSuc[of n] by (simp add: add.commute)
qed

lemma low60_not_full:
  fixes n :: "64 word"
  assumes "take_bit 60 n \<noteq> mask 60"
  shows "Suc (unat n mod 2 ^ 60) < 2 ^ 60" and "n \<noteq> - 1"
proof -
  have "unat (take_bit 60 n) \<noteq> unat (mask 60 :: 64 word)"
    using assms by (simp only: word_unat_eq_iff not_False_eq_True)
  then have "unat n mod 2 ^ 60 \<noteq> 2 ^ 60 - 1"
    by (simp only: unat_take_bit60 unat_mask60 not_False_eq_True)
  moreover have "unat n mod 2 ^ 60 < 2 ^ 60" by simp
  ultimately show "Suc (unat n mod 2 ^ 60) < 2 ^ 60" by linarith
  show "n \<noteq> - 1" using assms by auto
qed

lemma epoch_nonzero_unsharded:
  "(drop_bit 40 (n :: 64 word) \<noteq> 0) = (2 ^ 40 \<le> unat n)"
proof -
  have "(drop_bit 40 n = 0) = (unat (drop_bit 40 n) = 0)" by (simp add: unat_eq_0)
  also have "\<dots> = (unat n < 2 ^ 40)" unfolding unat_drop_bit40 by (simp add: div_eq_0_iff)
  finally show ?thesis by auto
qed

lemma epoch_nonzero_sharded:
  "(take_bit 20 (drop_bit 40 (n :: 64 word)) \<noteq> 0) = (2 ^ 40 \<le> unat n mod 2 ^ 60)"
proof -
  have "(drop_bit 40 (take_bit 60 n) = 0) = (unat (drop_bit 40 (take_bit 60 n)) = 0)"
    by (simp add: unat_eq_0)
  also have "\<dots> = (unat n mod 2 ^ 60 < 2 ^ 40)"
    unfolding unat_drop_bit40 unat_take_bit60 by (simp add: div_eq_0_iff)
  finally show ?thesis unfolding epoch_field_via_low60 by auto
qed

lemma unat_succ_low60:
  fixes n :: "64 word"
  shows "unat (n + 1) mod 2 ^ 60 = Suc (unat n mod 2 ^ 60) mod 2 ^ 60"
proof -
  have d: "(2::nat) ^ 60 dvd 2 ^ 64" by (rule le_imp_power_dvd) simp
  have "unat (n + 1) mod 2 ^ 60 = (unat n + 1) mod 2 ^ 64 mod 2 ^ 60"
    by (simp add: unat_word_ariths)
  also have "\<dots> = (unat n + 1) mod 2 ^ 60" using d by (rule mod_mod_cancel)
  also have "\<dots> = (unat n mod 2 ^ 60 + 1) mod 2 ^ 60" by (rule mod_add_left_eq[symmetric])
  finally show ?thesis by simp
qed

lemma Next_encoded_unsharded:
  fixes n :: "64 word"
  assumes "drop_bit 40 n \<noteq> 0"
  shows "(drop_bit 40 (n + 1) \<noteq> 0) = (n \<noteq> - 1)"
proof (cases "n = - 1")
  case True
  then show ?thesis by simp
next
  case False
  have "2 ^ 40 \<le> unat n" using assms by (simp only: epoch_nonzero_unsharded)
  then have "2 ^ 40 \<le> unat (n + 1)" unfolding unat_succ_if_not_max[OF False] by simp
  then show ?thesis using False by (simp only: epoch_nonzero_unsharded simp_thms)
qed

lemma Next_encoded_sharded:
  fixes n t :: "64 word"
  assumes "take_bit 20 (drop_bit 40 n) \<noteq> 0" "drop_bit 60 n = t"
  shows "(take_bit 20 (drop_bit 40 (n + 1)) \<noteq> 0 \<and> drop_bit 60 (n + 1) = t)
           = (take_bit 60 n \<noteq> mask 60)"
proof (cases "take_bit 60 n = mask 60")
  case True
  then have "unat (take_bit 60 n) = unat (mask 60 :: 64 word)" by simp
  then have "Suc (unat n mod 2 ^ 60) = 2 ^ 60" unfolding unat_take_bit60 unat_mask60 by simp
  then have "unat (n + 1) mod 2 ^ 60 = 0" unfolding unat_succ_low60 by simp
  then have "\<not> 2 ^ 40 \<le> unat (n + 1) mod 2 ^ 60" by simp
  then have "\<not> take_bit 20 (drop_bit 40 (n + 1)) \<noteq> 0"
    using epoch_nonzero_sharded[of "n + 1"] by blast
  then show ?thesis using True by blast
next
  case False
  note h = low60_not_full[OF False]
  have s: "unat (n + 1) = Suc (unat n)" using h(2) by (rule unat_succ_if_not_max)
  have e: "2 ^ 40 \<le> unat n mod 2 ^ 60" using assms(1) by (simp only: epoch_nonzero_sharded)
  have "Suc (unat n) mod 2 ^ 60 = Suc (unat n mod 2 ^ 60)" using h(1) by (rule nat_succ_div_mod(2))
  then have "2 ^ 40 \<le> unat (n + 1) mod 2 ^ 60" unfolding s using e by simp
  then have a: "take_bit 20 (drop_bit 40 (n + 1)) \<noteq> 0" by (simp only: epoch_nonzero_sharded)
  have "Suc (unat n) div 2 ^ 60 = unat n div 2 ^ 60" using h(1) by (rule nat_succ_div_mod(1))
  then have "drop_bit 60 (n + 1) = drop_bit 60 n"
    unfolding word_unat_eq_iff unat_drop_bit60 s .
  with a assms(2) False show ?thesis by simp
qed

lemma Next_encoded_iff:
  assumes "encoded w"
  shows "encoded (fst (snd (Next w))) = next_safe w"
proof (cases "Section w = 0")
  case True
  with assms have "drop_bit 40 (N w) \<noteq> 0" by (simp add: encoded_def epoch_of_def)
  then have "(drop_bit 40 (N w + 1) \<noteq> 0) = (N w \<noteq> - 1)" by (rule Next_encoded_unsharded)
  then show ?thesis using True by (simp add: encoded_def epoch_of_def next_safe_def Next_simps)
next
  case False
  with assms have "take_bit 20 (drop_bit 40 (N w)) \<noteq> 0" "drop_bit 60 (N w) = ucast (Section w)"
    by (simp_all add: encoded_def epoch_of_def)
  then have "(take_bit 20 (drop_bit 40 (N w + 1)) \<noteq> 0 \<and> drop_bit 60 (N w + 1) = ucast (Section w))
           = (take_bit 60 (N w) \<noteq> mask 60)" by (rule Next_encoded_sharded)
  then show ?thesis using False by (simp add: encoded_def epoch_of_def next_safe_def Next_simps)
qed

lemma install_Section: "Section (install w h c) = Section w"
  by (simp add: install_def Reset_def split: option.splits)

lemma install_encoded:
  assumes "Section w \<le> 15" "VerifyH24 w h = None"
  shows "encoded (install w h c)" "h \<noteq> 0"
proof -
  show nz: "h \<noteq> 0" using assms(2) by (auto simp add: VerifyH24_def split: if_splits)
  show "encoded (install w h c)"
  proof (cases "Section w = 0")
    case True
    with assms(2) have "\<not> h > 0xFFFFFF" by (auto simp add: VerifyH24_def split: if_splits)
    then have h: "take_bit 24 h = h" by (rule h24_small)
    have "h OR drop_bit 40 c \<noteq> 0" using nz by (simp add: or_eq_0_iff)
    moreover have "drop_bit 40 (push_bit 40 h OR c) = h OR drop_bit 40 c"
      using unsharded_epoch_field[of h c] by (simp only: h)
    ultimately have "drop_bit 40 (push_bit 40 h OR c) \<noteq> 0" by (simp only: not_False_eq_True)
    then show ?thesis using True assms(2)
      by (simp add: encoded_def epoch_of_def install_def Reset_def)
  next
    case False
    with assms(2) have "\<not> h > 0x0FFFFF" by (auto simp add: VerifyH24_def split: if_splits)
    then have h: "take_bit 20 h = h" by (rule h20_small)
    let ?v = "((push_bit 40 h OR c) AND mask 60) OR push_bit 60 (ucast (Section w)) :: 64 word"
    have "h OR take_bit 20 (drop_bit 40 c) \<noteq> 0" using nz by (simp add: or_eq_0_iff)
    moreover have "take_bit 20 (drop_bit 40 ?v) = h OR take_bit 20 (drop_bit 40 c)"
      using sharded_epoch_field[of h c "Section w"] by (simp only: h)
    ultimately have e: "take_bit 20 (drop_bit 40 ?v) \<noteq> 0" by (simp only: not_False_eq_True)
    have t: "drop_bit 60 ?v = ucast (Section w)"
      using sharded_top_bits[of "push_bit 40 h OR c" "Section w"]
      by (simp only: section_small[OF assms(1)])
    have "install w h c = w\<lparr>N := ?v\<rparr>"
      using False assms(2) by (simp add: install_def Reset_def mask60_numeral)
    then show ?thesis using False e t by (simp add: encoded_def epoch_of_def)
  qed
qed

lemma install_epoch:
  assumes "Section w \<le> 15" "VerifyH24 w h = None" "c \<le> mask 40"
  shows "epoch_of (install w h c) = h"
proof (cases "Section w = 0")
  case True
  with assms(2) have "\<not> h > 0xFFFFFF" by (auto simp add: VerifyH24_def split: if_splits)
  then have h: "take_bit 24 h = h" by (rule h24_small)
  have "drop_bit 40 (push_bit 40 h OR c) = h"
    using unsharded_epoch_bits[of h c] by (simp only: h counter_small[OF assms(3)])
  then show ?thesis using True assms(2) by (simp add: epoch_of_def install_def Reset_def)
next
  case False
  with assms(2) have "\<not> h > 0x0FFFFF" by (auto simp add: VerifyH24_def split: if_splits)
  then have h: "take_bit 20 h = h" by (rule h20_small)
  let ?v = "((push_bit 40 h OR c) AND mask 60) OR push_bit 60 (ucast (Section w)) :: 64 word"
  have e: "take_bit 20 (drop_bit 40 ?v) = h"
    using sharded_epoch_bits[of h c "Section w"] by (simp only: h counter_small[OF assms(3)])
  have "install w h c = w\<lparr>N := ?v\<rparr>"
    using False assms(2) by (simp add: install_def Reset_def mask60_numeral)
  then show ?thesis using False e by (simp add: epoch_of_def)
qed

lemma step_Section: "Section (step w a) = Section w"
  by (cases a) (simp_all add: install_Section Next_simps)

lemma run_Section: "Section (run w ops) = Section w"
  unfolding run_def by (induction ops arbitrary: w) (simp_all add: step_Section)

lemma run_append: "run w (xs @ ys) = run (run w xs) ys"
  by (simp add: run_def)

lemma run_Cons: "run w (a # ops) = run (step w a) ops"
  by (simp add: run_def)

lemma epoch_safe_Cons:
  "epoch_safe w (a # ops) =
     ((case a of OpNext \<Rightarrow> next_safe w | OpInstall h c \<Rightarrow> True) \<and> epoch_safe (step w a) ops)"
  by (cases a) simp_all

lemma step_encoded:
  assumes "encoded w" "Section w \<le> 15" "epoch_safe w [a]"
  shows "encoded (step w a)"
proof (cases a)
  case OpNext
  then show ?thesis using assms Next_encoded_iff[of w] by simp
next
  case (OpInstall h c)
  show ?thesis
  proof (cases "VerifyH24 w h")
    case None
    then show ?thesis using assms(2) OpInstall install_encoded(1)[of w h c] by simp
  next
    case (Some e)
    then show ?thesis using assms(1) OpInstall by (simp add: install_def)
  qed
qed

lemma run_encoded:
  assumes "encoded w" "Section w \<le> 15" "epoch_safe w ops"
  shows "encoded (run w ops)"
  using assms
proof (induction ops arbitrary: w)
  case Nil
  then show ?case by (simp add: run_def)
next
  case (Cons a ops)
  from Cons.prems(3) have c: "epoch_safe w [a]" "epoch_safe (step w a) ops"
    by (simp_all add: epoch_safe_Cons[of w a])
  have "encoded (step w a)" using Cons.prems(1,2) c(1) by (rule step_encoded)
  moreover have "Section (step w a) \<le> 15" using Cons.prems(2) by (simp add: step_Section)
  ultimately have "encoded (run (step w a) ops)" using c(2) by (rule Cons.IH)
  then show ?case by (simp only: run_Cons)
qed

subsection \<open>Options of the constructor\<close>

lemma fold_WithSection:
  assumes "\<forall>opt \<in> set opts. \<exists>s. WithSection s = Inr opt"
  shows "N (fold (\<lambda>opt w. opt w) opts w) = N w"
  using assms
proof (induction opts arbitrary: w)
  case Nil
  show ?case by simp
next
  case (Cons opt opts)
  then obtain s where "WithSection s = Inr opt" by auto
  then have "opt = (\<lambda>w. w\<lparr>Section := s\<rparr>)"
    by (auto simp add: WithSection_def split: if_splits)
  then have "N (opt w) = N w" by simp
  moreover have "N (fold (\<lambda>opt w. opt w) opts (opt w)) = N (opt w)"
    using Cons by simp
  ultimately show ?case by simp
qed

lemma fold_WithSection_Section:
  assumes "\<forall>opt \<in> set opts. \<exists>s. WithSection s = Inr opt" "Section w \<le> 15"
  shows "Section (fold (\<lambda>opt w. opt w) opts w) \<le> 15"
  using assms
proof (induction opts arbitrary: w)
  case Nil
  then show ?case by simp
next
  case (Cons opt opts)
  then obtain s where s: "WithSection s = Inr opt" by auto
  then have "opt = (\<lambda>w. w\<lparr>Section := s\<rparr>)" and "\<not> 16 \<le> s"
    by (auto simp add: WithSection_def split: if_splits)
  then have "Section (opt w) \<le> 15" by (simp add: word_le_nat_alt)
  then have "Section (fold (\<lambda>opt w. opt w) opts (opt w)) \<le> 15"
    using Cons by simp
  then show ?case by simp
qed

lemma NewWUID_Section:
  assumes "\<forall>opt \<in> set opts. \<exists>s. WithSection s = Inr opt"
  shows "Section (NewWUID tag lg opts) \<le> 15"
  unfolding NewWUID_def using assms by (rule fold_WithSection_Section) simp

section \<open>Properties\<close>

text \<open>
  Claim C1. A call of \<open>Next\<close> stores the value plus one (modulo \<open>2^64\<close>, the addition of
  64-bit words) and returns what it stored. So \<open>k\<close> consecutive calls from the value
  \<open>initial\<close> return \<open>initial + 1, \<dots>, initial + k\<close> in this order, with no gap, and leave the
  value \<open>initial + k\<close>; the identifiers are pairwise different as long as \<open>k\<close> is at most
  \<open>2^64\<close>, the number of 64-bit values.
\<close>

theorem Next_increments_and_returns:
  "fst (Next w) = N w + 1 \<and>
   fst (snd (Next w)) = w\<lparr>N := N w + 1\<rparr> \<and>
   fst (Next_times k w) = map (\<lambda>i. N w + of_nat i) [1..<Suc k] \<and>
   N (snd (Next_times k w)) = N w + of_nat k \<and>
   (k \<le> 2 ^ 64 \<longrightarrow> distinct (fst (Next_times k w)))"
proof -
  have a: "fst (Next w) = N w + 1" by (simp only: Next_simps)
  have b: "fst (snd (Next w)) = w\<lparr>N := N w + 1\<rparr>" by (simp only: Next_simps)
  have c: "fst (Next_times k w) = map (\<lambda>i. N w + of_nat i) [1..<Suc k]"
    unfolding Next_times_fst
    by (simp only: One_nat_def map_Suc_upt[symmetric] map_map comp_def)
  have d: "N (snd (Next_times k w)) = N w + of_nat k" by (simp add: Next_times_snd)
  have e: "k \<le> 2 ^ 64 \<longrightarrow> distinct (fst (Next_times k w))"
    using Next_times_distinct by blast
  from a b c d e show ?thesis by blast
qed

theorem Next_increments_and_returns_witness:
  "fst (Next_times 3 \<lparr>Section = 0, N = 5, Tag = ''t'', Logger = None, Renew = None\<rparr>) = [6, 7, 8] \<and>
   N (snd (Next_times 3 \<lparr>Section = 0, N = 5, Tag = ''t'', Logger = None, Renew = None\<rparr>)) = 8 \<and>
   distinct (fst (Next_times 3 \<lparr>Section = 0, N = 5, Tag = ''t'', Logger = None, Renew = None\<rparr>))"
  using Next_increments_and_returns
          [of "\<lparr>Section = 0, N = 5, Tag = ''t'', Logger = None, Renew = None\<rparr>" 3]
  by (simp add: upt_rec)

text \<open>
  Claim C3. \<open>VerifyH24\<close> returns an error exactly when the candidate is 0, or exceeds
  \<open>0xFFFFFF\<close> on an unsharded generator, or exceeds \<open>0x0FFFFF\<close> on a sharded one. Every
  other candidate is accepted. The function is total: it has no outcome but an error and
  nil.
\<close>

theorem VerifyH24_error_iff:
  "(VerifyH24 w h24 \<noteq> None) =
     (h24 = 0 \<or> (Section w = 0 \<and> h24 > 0xFFFFFF) \<or> (Section w \<noteq> 0 \<and> h24 > 0x0FFFFF))"
  by (simp add: VerifyH24_def)

text \<open>
  Claim C2. \<open>Next\<close> starts a renewal goroutine exactly when the incremented value \<open>x\<close>
  satisfies both \<open>x AND 0xFFFFFFFFFF \<ge> CriticalValue\<close> and \<open>x AND RenewInterval = 0\<close>; the
  goroutine is given the generator's \<open>Renew\<close>. \<open>CriticalValue\<close> is the floor of
  \<open>2^40 * 0.8\<close>, that is 879609302220, and \<open>RenewInterval\<close> is \<open>0x01FFFFFFFF\<close>.
\<close>

theorem Next_dispatch_iff:
  "(snd (snd (Next w)) \<noteq> None) =
     (fst (Next w) AND 0xFFFFFFFFFF \<ge> CriticalValue \<and> fst (Next w) AND RenewInterval = 0) \<and>
   (snd (snd (Next w)) = None \<or> snd (snd (Next w)) = Some (Renew w)) \<and>
   CriticalValue = word_of_int \<lfloor>(2 :: real) ^ 40 * 0.8\<rfloor> \<and>
   CriticalValue = 879609302220 \<and>
   RenewInterval = 0x01FFFFFFFF"
proof -
  have f: "\<lfloor>(2 :: real) ^ 40 * 0.8\<rfloor> = 879609302220" by (simp add: floor_eq_iff)
  have a: "(snd (snd (Next w)) \<noteq> None) =
     (fst (Next w) AND 0xFFFFFFFFFF \<ge> CriticalValue \<and> fst (Next w) AND RenewInterval = 0)"
    by (simp add: Next_def Let_def)
  have b: "snd (snd (Next w)) = None \<or> snd (snd (Next w)) = Some (Renew w)"
    by (simp add: Next_def Let_def)
  have c: "CriticalValue = word_of_int \<lfloor>(2 :: real) ^ 40 * 0.8\<rfloor>"
    unfolding f by (simp add: CriticalValue_def)
  have d: "CriticalValue = 879609302220" by (simp add: CriticalValue_def)
  have e: "RenewInterval = 0x01FFFFFFFF" by (simp add: RenewInterval_def)
  from a b c d e show ?thesis by blast
qed

theorem Next_dispatch_iff_witness:
  "snd (snd (Next \<lparr>Section = 0, N = 0x1CDFFFFFFFF, Tag = ''t'', Logger = None, Renew = None\<rparr>))
     = Some None \<and>
   snd (snd (Next \<lparr>Section = 0, N = 0x1CE00000000, Tag = ''t'', Logger = None, Renew = None\<rparr>))
     = None \<and>
   snd (snd (Next \<lparr>Section = 0, N = 0x1CBFFFFFFFF, Tag = ''t'', Logger = None, Renew = None\<rparr>))
     = None"
  using Next_dispatch_iff
          [THEN conjunct1,
           of "\<lparr>Section = 0, N = 0x1CDFFFFFFFF, Tag = ''t'', Logger = None, Renew = None\<rparr>"]
        Next_dispatch_iff
          [THEN conjunct1,
           of "\<lparr>Section = 0, N = 0x1CE00000000, Tag = ''t'', Logger = None, Renew = None\<rparr>"]
        Next_dispatch_iff
          [THEN conjunct1,
           of "\<lparr>Section = 0, N = 0x1CBFFFFFFFF, Tag = ''t'', Logger = None, Renew = None\<rparr>"]
        Next_dispatch_iff
          [THEN conjunct2, THEN conjunct1,
           of "\<lparr>Section = 0, N = 0x1CDFFFFFFFF, Tag = ''t'', Logger = None, Renew = None\<rparr>"]
  by (auto simp add: Next_simps RenewInterval_def CriticalValue_def)

text \<open>
  Claim C4. On an unsharded generator \<open>Reset n\<close> stores \<open>n\<close> as it is. On a generator
  whose section \<open>s\<close> is between 1 and 15 it stores \<open>(n AND 0x0FFFFFFFFFFFFFFF) OR (s << 60)\<close>:
  the top 4 bits of the stored value are \<open>s\<close>, whatever the top 4 bits of \<open>n\<close> were, and the
  low 60 bits are those of \<open>n\<close>. No other field changes.
\<close>

theorem Reset_stores:
  "(Section w = 0 \<longrightarrow> Reset w n = w\<lparr>N := n\<rparr>) \<and>
   (1 \<le> Section w \<and> Section w \<le> 15 \<longrightarrow>
      Reset w n = w\<lparr>N := (n AND 0x0FFFFFFFFFFFFFFF) OR push_bit 60 (ucast (Section w))\<rparr> \<and>
      drop_bit 60 (N (Reset w n)) = ucast (Section w) \<and>
      take_bit 60 (N (Reset w n)) = take_bit 60 n)"
proof (intro conjI impI)
  assume "Section w = 0"
  then show "Reset w n = w\<lparr>N := n\<rparr>" by (simp add: Reset_def)
next
  assume s: "1 \<le> Section w \<and> Section w \<le> 15"
  then have nz: "Section w \<noteq> 0" by auto
  have r: "N (Reset w n) = (n AND mask 60) OR push_bit 60 (ucast (take_bit 4 (Section w)))"
    using nz s by (simp add: Reset_def mask60_numeral section_small)
  show "Reset w n = w\<lparr>N := (n AND 0x0FFFFFFFFFFFFFFF) OR push_bit 60 (ucast (Section w))\<rparr>"
    using nz by (simp add: Reset_def)
  show "drop_bit 60 (N (Reset w n)) = ucast (Section w)"
    unfolding r sharded_top_bits using s by (simp add: section_small)
  show "take_bit 60 (N (Reset w n)) = take_bit 60 n"
    unfolding r by (rule sharded_low_bits)
qed

theorem Reset_stores_witness:
  "N (Reset \<lparr>Section = 5, N = 0, Tag = ''t'', Logger = None, Renew = None\<rparr> 0xF000000000000123)
     = 0x5000000000000123 \<and>
   drop_bit 60
     (N (Reset \<lparr>Section = 5, N = 0, Tag = ''t'', Logger = None, Renew = None\<rparr> 0xF000000000000123))
     = 5 \<and>
   N (Reset \<lparr>Section = 0, N = 0, Tag = ''t'', Logger = None, Renew = None\<rparr> 0xF000000000000123)
     = 0xF000000000000123"
  using Reset_stores
          [of "\<lparr>Section = 5, N = 0, Tag = ''t'', Logger = None, Renew = None\<rparr>"
              "0xF000000000000123"]
        Reset_stores
          [of "\<lparr>Section = 0, N = 0, Tag = ''t'', Logger = None, Renew = None\<rparr>"
              "0xF000000000000123"]
  by simp

text \<open>
  Claim C5. \<open>WithSection\<close> panics on a section that is 0 or at least 16, so a construction
  with such a section ends in the panic and yields no generator (none that could issue an
  identifier). A section between 1 and 15 is accepted, and the generator constructed with
  it has exactly this section.
\<close>

theorem WithSection_range:
  "(section = 0 \<or> section \<ge> 16 \<longrightarrow>
      WithSection section = Inl ''section must be in between [1, 15]'' \<and>
      NewWUID_WithSection tag lg section = Inl ''section must be in between [1, 15]'') \<and>
   (1 \<le> section \<and> section \<le> 15 \<longrightarrow>
      WithSection section = Inr (\<lambda>w. w\<lparr>Section := section\<rparr>) \<and>
      NewWUID_WithSection tag lg section =
        Inr \<lparr>Section = section, N = 0, Tag = tag, Logger = lg, Renew = None\<rparr>)"
proof (intro conjI impI)
  assume bad: "section = 0 \<or> section \<ge> 16"
  then show w: "WithSection section = Inl ''section must be in between [1, 15]''"
    by (simp add: WithSection_def)
  then show "NewWUID_WithSection tag lg section = Inl ''section must be in between [1, 15]''"
    by (simp add: NewWUID_WithSection_def)
next
  assume ok: "1 \<le> section \<and> section \<le> 15"
  then have "section \<noteq> 0" by auto
  moreover have "\<not> section \<ge> 16"
  proof
    assume "16 \<le> section"
    with ok have "(16 :: 8 word) \<le> 15" by (meson order_trans)
    then show False by simp
  qed
  ultimately show w: "WithSection section = Inr (\<lambda>w. w\<lparr>Section := section\<rparr>)"
    by (simp add: WithSection_def)
  then show "NewWUID_WithSection tag lg section =
        Inr \<lparr>Section = section, N = 0, Tag = tag, Logger = lg, Renew = None\<rparr>"
    by (simp add: NewWUID_WithSection_def NewWUID_def)
qed

theorem WithSection_range_witness:
  "NewWUID_WithSection ''t'' None 0 = Inl ''section must be in between [1, 15]'' \<and>
   NewWUID_WithSection ''t'' None 16 = Inl ''section must be in between [1, 15]'' \<and>
   NewWUID_WithSection ''t'' None 15 =
     Inr \<lparr>Section = 15, N = 0, Tag = ''t'', Logger = None, Renew = None\<rparr>"
  using WithSection_range[of 0 "''t''" None] WithSection_range[of 16 "''t''" None]
        WithSection_range[of 15 "''t''" None]
  by simp

text \<open>
  Claim C6, as the code has it. \<open>Next\<close> adds one to the whole 64-bit value. The bits
  above the low 40 are unchanged by a call exactly when the low 40 bits are not all ones
  before it; when they are, the addition carries into bit 40 and the high bits change
  without any \<open>Reset\<close>. The low 40 bits always advance by one modulo \<open>2^40\<close>, and the
  section is untouched.
\<close>

theorem Next_high_bits:
  "(drop_bit 40 (N (fst (snd (Next w)))) = drop_bit 40 (N w)) = (take_bit 40 (N w) \<noteq> mask 40) \<and>
   take_bit 40 (N (fst (snd (Next w)))) = take_bit 40 (take_bit 40 (N w) + 1) \<and>
   Section (fst (snd (Next w))) = Section w"
proof -
  have n: "N (fst (snd (Next w))) = N w + 1" by (simp add: Next_simps)
  have a: "(drop_bit 40 (N w + 1) = drop_bit 40 (N w)) = (take_bit 40 (N w) \<noteq> mask 40)"
    using succ_with_carry[of "N w"] succ_without_carry(1)[of "N w"] by blast
  have b: "take_bit 40 (N w + 1) = take_bit 40 (take_bit 40 (N w) + 1)"
    by (rule take_bit40_succ)
  have c: "Section (fst (snd (Next w))) = Section w" by (simp add: Next_simps)
  from a b c show ?thesis unfolding n by blast
qed

text \<open>The claim as stated fails where the counter is full: from epoch 1 with the low 40
  bits all ones, one call of \<open>Next\<close> leaves epoch 2.\<close>

theorem Next_high_bits_counterexample:
  "drop_bit 40
     (N (fst (snd (Next \<lparr>Section = 0, N = 0x1FFFFFFFFFF, Tag = ''t'', Logger = None, Renew = None\<rparr>))))
     = 2 \<and>
   drop_bit 40 (N \<lparr>Section = 0, N = 0x1FFFFFFFFFF, Tag = ''t'', Logger = None, Renew = None\<rparr>)
     = (1 :: 64 word)"
  by (simp add: Next_simps drop_bit_eq_div)

text \<open>
  Claim C7, as the code has it. \<open>RenewInterval = 0x01FFFFFFFF\<close> is the mask of the low
  33 bits, and \<open>RenewInterval + 1\<close> is \<open>2^33 = 8589934592\<close>. Among the \<open>2^33\<close> identifiers
  that \<open>2^33\<close> consecutive calls of \<open>Next\<close> return, exactly one satisfies the throttle
  condition \<open>x AND RenewInterval = 0\<close>: about one renewal attempt per 8.6 billion identifiers.
\<close>

theorem throttle_once_per_window:
  "RenewInterval = mask 33 \<and>
   unat RenewInterval + 1 = 8589934592 \<and>
   {i. i < 2 ^ 33 \<and> (fst (Next_times (2 ^ 33) w) ! i) AND RenewInterval = 0} =
     {(2 ^ 33 - unat (N w + 1) mod 2 ^ 33) mod 2 ^ 33}"
proof -
  have a: "unat RenewInterval + 1 = 8589934592" by (simp add: RenewInterval_def)
  have "(i < 2 ^ 33 \<and> (fst (Next_times (2 ^ 33) w) ! i) AND RenewInterval = 0) =
        (i = (2 ^ 33 - unat (N w + 1) mod 2 ^ 33) mod 2 ^ 33)" for i
  proof (cases "i < 2 ^ 33")
    case True
    then show ?thesis by (simp only: Next_times_nth throttle_iff simp_thms)
  next
    case False
    moreover have "(2 ^ 33 - unat (N w + 1) mod 2 ^ 33) mod 2 ^ 33 < (2::nat) ^ 33" by simp
    ultimately show ?thesis by blast
  qed
  then have "{i. i < 2 ^ 33 \<and> (fst (Next_times (2 ^ 33) w) ! i) AND RenewInterval = 0} =
     {(2 ^ 33 - unat (N w + 1) mod 2 ^ 33) mod 2 ^ 33}" by blast
  with a RenewInterval_mask show ?thesis by blast
qed

text \<open>The claim as stated fails: the mask is not the 37-bit one, and the window is less
  than half of 34 billion.\<close>

theorem throttle_once_per_window_counterexample:
  "RenewInterval \<noteq> mask 37 \<and> 2 * (unat RenewInterval + 1) < 34000000000"
  by (simp add: RenewInterval_def mask_eq_exp_minus_1)

text \<open>
  Claim C8, as the code has it. A freshly constructed generator has the value 0, which
  encodes no epoch. Take any state reached from construction (options built by
  \<open>WithSection\<close>, then any history) and install an epoch that \<open>VerifyH24\<close> accepts. From
  then on, after every further history of \<open>Next\<close> calls and installs in which no \<open>Next\<close>
  carries out of the epoch field (none finds all 64 bits one when unsharded, or the low 60
  bits all one when sharded), the value holds a non-zero epoch in bits 40 to 63 when
  unsharded, and when sharded a non-zero epoch in bits 40 to 59 with the section in the top
  4 bits, above the epoch. A carry out of the 40-bit counter alone keeps the layout. The
  restriction is exact: from a state so reached, one more \<open>Next\<close> keeps the layout if and
  only if it does not carry out of the epoch field. When the initial counter fits the low
  40 bits, the epoch field right after the install is the installed epoch.
\<close>

theorem encoded_after_install:
  assumes "\<forall>opt \<in> set opts. \<exists>s. WithSection s = Inr opt"
    and "VerifyH24 (run (NewWUID tag lg opts) pre) h24 = None"
    and "epoch_safe (install (run (NewWUID tag lg opts) pre) h24 c) ops"
  shows "\<not> encoded (NewWUID tag lg opts) \<and>
         h24 \<noteq> 0 \<and>
         (c \<le> mask 40 \<longrightarrow> epoch_of (install (run (NewWUID tag lg opts) pre) h24 c) = h24) \<and>
         encoded (run (NewWUID tag lg opts) (pre @ OpInstall h24 c # ops)) \<and>
         encoded (step (run (NewWUID tag lg opts) (pre @ OpInstall h24 c # ops)) OpNext) =
           next_safe (run (NewWUID tag lg opts) (pre @ OpInstall h24 c # ops))"
proof -
  let ?g = "NewWUID tag lg opts"
  let ?w = "run ?g pre"
  let ?f = "run ?g (pre @ OpInstall h24 c # ops)"
  have "N ?g = 0" unfolding NewWUID_def using fold_WithSection[OF assms(1)] by simp
  then have a: "\<not> encoded ?g" by (simp add: encoded_def epoch_of_def)
  have s: "Section ?w \<le> 15" using NewWUID_Section[OF assms(1)] by (simp only: run_Section)
  note i = install_encoded[OF s assms(2)]
  have b: "c \<le> mask 40 \<longrightarrow> epoch_of (install ?w h24 c) = h24"
    using install_epoch[OF s assms(2)] by blast
  have "Section (install ?w h24 c) \<le> 15" using s by (simp only: install_Section)
  with i(1) have "encoded (run (install ?w h24 c) ops)" using assms(3) by (rule run_encoded)
  moreover have f: "?f = run (install ?w h24 c) ops" by (simp add: run_def)
  ultimately have e: "encoded ?f" by simp
  have n: "encoded (step ?f OpNext) = next_safe ?f" using Next_encoded_iff[OF e] by simp
  from a i(2) b e n show ?thesis by blast
qed

theorem encoded_after_install_witness:
  "N (run (NewWUID ''t'' None [\<lambda>w. w\<lparr>Section := 5\<rparr>])
        ([OpNext] @ OpInstall 1 0xFFFFFFFFFF # [OpNext, OpInstall 2 7, OpNext]))
     = 0x5000020000000008 \<and>
   N (run (NewWUID ''t'' None [\<lambda>w. w\<lparr>Section := 5\<rparr>])
        ([OpNext] @ OpInstall 1 0xFFFFFFFFFF # [OpNext]))
     = 0x5000020000000000 \<and>
   epoch_of (install (run (NewWUID ''t'' None [\<lambda>w. w\<lparr>Section := 5\<rparr>]) [OpNext]) 1 0xFFFFFFFFFF) = 1 \<and>
   encoded (run (NewWUID ''t'' None [\<lambda>w. w\<lparr>Section := 5\<rparr>])
        ([OpNext] @ OpInstall 1 0xFFFFFFFFFF # [OpNext])) \<and>
   encoded (run (NewWUID ''t'' None [\<lambda>w. w\<lparr>Section := 5\<rparr>])
        ([OpNext] @ OpInstall 1 0xFFFFFFFFFF # [OpNext, OpInstall 2 7, OpNext]))"
proof -
  let ?opts = "[\<lambda>w :: WUID. w\<lparr>Section := 5\<rparr>]"
  let ?w = "run (NewWUID ''t'' None ?opts) [OpNext]"
  have "WithSection 5 = Inr (\<lambda>w. w\<lparr>Section := 5\<rparr>)" by (simp add: WithSection_def)
  then have o: "\<forall>opt \<in> set ?opts. \<exists>s. WithSection s = Inr opt" by auto
  have w: "?w = \<lparr>Section = 5, N = 1, Tag = ''t'', Logger = None, Renew = None\<rparr>"
    by (simp add: run_def NewWUID_def Next_simps)
  have v: "VerifyH24 ?w 1 = None" unfolding w by (simp add: VerifyH24_def)
  have c: "(0xFFFFFFFFFF :: 64 word) \<le> mask 40" by (simp add: mask_eq_exp_minus_1)
  have i: "install ?w 1 0xFFFFFFFFFF =
             \<lparr>Section = 5, N = 0x500001FFFFFFFFFF, Tag = ''t'', Logger = None, Renew = None\<rparr>"
    unfolding w by (simp add: install_def VerifyH24_def Reset_def)
  have f1: "epoch_safe (install ?w 1 0xFFFFFFFFFF) [OpNext]"
    unfolding i by (simp add: next_safe_def mask_eq_exp_minus_1 take_bit_eq_mod)
  have f2: "epoch_safe (install ?w 1 0xFFFFFFFFFF) [OpNext, OpInstall 2 7, OpNext]"
    unfolding i
    by (simp add: next_safe_def install_def VerifyH24_def Reset_def Next_simps
          mask_eq_exp_minus_1 take_bit_eq_mod)
  have n1: "N (run (NewWUID ''t'' None ?opts) ([OpNext] @ OpInstall 1 0xFFFFFFFFFF # [OpNext]))
              = 0x5000020000000000"
    by (simp add: run_def NewWUID_def install_def VerifyH24_def Reset_def Next_simps)
  have n2: "N (run (NewWUID ''t'' None ?opts)
                 ([OpNext] @ OpInstall 1 0xFFFFFFFFFF # [OpNext, OpInstall 2 7, OpNext]))
              = 0x5000020000000008"
    by (simp add: run_def NewWUID_def install_def VerifyH24_def Reset_def Next_simps)
  from encoded_after_install[OF o v f1] encoded_after_install[OF o v f2] c n1 n2
  show ?thesis by blast
qed

text \<open>
  The claim as stated fails. A freshly constructed generator has the value 0, and after
  its first \<open>Next\<close> the epoch bits are still zero. On a generator with section 5 a validated
  install of epoch 1 stores \<open>0x5000010000000000\<close>: the section is in the top 4 bits, and the
  4 bits just above the counter hold the low bits of the epoch, not the section. And a carry
  out of the epoch field destroys the layout: unsharded, from epoch \<open>0xFFFFFF\<close> with a full
  counter the next value is 0; with section 5, from epoch \<open>0xFFFFF\<close> with a full counter
  the next value is \<open>0x6000000000000000\<close>, epoch 0 under the tag 6.
\<close>

theorem encoded_after_install_counterexample:
  "epoch_of (run (NewWUID ''t'' None []) [OpNext]) = 0 \<and>
   N (install \<lparr>Section = 5, N = 0, Tag = ''t'', Logger = None, Renew = None\<rparr> 1 0)
     = 0x5000010000000000 \<and>
   take_bit 4 (drop_bit 40
       (N (install \<lparr>Section = 5, N = 0, Tag = ''t'', Logger = None, Renew = None\<rparr> 1 0)))
     \<noteq> (5 :: 64 word) \<and>
   epoch_of (run (NewWUID ''t'' None []) [OpInstall 0xFFFFFF 0xFFFFFFFFFF, OpNext]) = 0 \<and>
   N (run \<lparr>Section = 5, N = 0, Tag = ''t'', Logger = None, Renew = None\<rparr>
        [OpInstall 0xFFFFF 0xFFFFFFFFFF, OpNext]) = 0x6000000000000000"
  by (simp add: run_def NewWUID_def Next_simps epoch_of_def install_def VerifyH24_def Reset_def
        drop_bit_eq_div take_bit_eq_mod)

text \<open>
  Claim C9. The renewal goroutine never lets a panic out. With a logger, an error
  returned by the callback adds exactly one \<open>Warn\<close> entry that ends with the error's text, a
  nil return adds exactly one \<open>Info\<close> entry, and a panic of the callback adds exactly one
  \<open>Warn\<close> entry with the panic's value. Without a logger nothing is logged and the only
  effect is what the callback did to the value. What \<open>Next\<close> returns does not depend on the
  callback.
\<close>

theorem renew_goroutine_logs:
  "fst (renew_goroutine renew w) = None \<and>
   (Logger w = None \<longrightarrow>
      snd (renew_goroutine renew w) = w\<lparr>N := snd (call_renew renew (N w))\<rparr>) \<and>
   (Logger w = Some es \<and> call_renew renew (N w) = (Returns (Some e), n') \<longrightarrow>
      snd (renew_goroutine renew w) =
        w\<lparr>N := n', Logger := Some (es @ [Warn (''[wuid] renew failed. tag: '' @ Tag w @ '', reason: '' @ e)])\<rparr>) \<and>
   (Logger w = Some es \<and> call_renew renew (N w) = (Returns None, n') \<longrightarrow>
      snd (renew_goroutine renew w) =
        w\<lparr>N := n', Logger := Some (es @ [Info (''[wuid] renew succeeded. tag: '' @ Tag w)])\<rparr>) \<and>
   (Logger w = Some es \<and> call_renew renew (N w) = (Panics r, n') \<longrightarrow>
      snd (renew_goroutine renew w) =
        w\<lparr>N := n', Logger := Some (es @ [Warn (''[wuid] panic. tag: '' @ Tag w @ '', reason: '' @ r)])\<rparr>) \<and>
   fst (Next (w\<lparr>Renew := renew\<rparr>)) = fst (Next w)"
proof (intro conjI impI)
  show "fst (renew_goroutine renew w) = None"
    by (simp add: renew_goroutine_def renew_body_def Let_def
          split: prod.splits option.splits renew_outcome.splits)
  show "fst (Next (w\<lparr>Renew := renew\<rparr>)) = fst (Next w)" by (simp add: Next_simps)
next
  assume "Logger w = None"
  then show "snd (renew_goroutine renew w) = w\<lparr>N := snd (call_renew renew (N w))\<rparr>"
    by (auto simp add: renew_goroutine_def renew_body_def Let_def
          split: prod.splits option.splits renew_outcome.splits)
next
  assume "Logger w = Some es \<and> call_renew renew (N w) = (Returns (Some e), n')"
  then show "snd (renew_goroutine renew w) =
        w\<lparr>N := n', Logger := Some (es @ [Warn (''[wuid] renew failed. tag: '' @ Tag w @ '', reason: '' @ e)])\<rparr>"
    by (simp add: renew_goroutine_def renew_body_def Let_def log_to_def)
next
  assume "Logger w = Some es \<and> call_renew renew (N w) = (Returns None, n')"
  then show "snd (renew_goroutine renew w) =
        w\<lparr>N := n', Logger := Some (es @ [Info (''[wuid] renew succeeded. tag: '' @ Tag w)])\<rparr>"
    by (simp add: renew_goroutine_def renew_body_def Let_def log_to_def)
next
  assume "Logger w = Some es \<and> call_renew renew (N w) = (Panics r, n')"
  then show "snd (renew_goroutine renew w) =
        w\<lparr>N := n', Logger := Some (es @ [Warn (''[wuid] panic. tag: '' @ Tag w @ '', reason: '' @ r)])\<rparr>"
    by (simp add: renew_goroutine_def renew_body_def Let_def log_to_def)
qed


theorem renew_goroutine_logs_witness:
  "renew_goroutine (Some (\<lambda>n. (Returns (Some ''timeout''), n)))
     \<lparr>Section = 0, N = 7, Tag = ''t'', Logger = Some [], Renew = None\<rparr> =
     (None, \<lparr>Section = 0, N = 7, Tag = ''t'',
             Logger = Some [Warn ''[wuid] renew failed. tag: t, reason: timeout''], Renew = None\<rparr>) \<and>
   renew_goroutine (Some (\<lambda>n. (Returns None, 0x20000000000)))
     \<lparr>Section = 0, N = 7, Tag = ''t'', Logger = Some [], Renew = None\<rparr> =
     (None, \<lparr>Section = 0, N = 0x20000000000, Tag = ''t'',
             Logger = Some [Info ''[wuid] renew succeeded. tag: t''], Renew = None\<rparr>) \<and>
   renew_goroutine (Some (\<lambda>n. (Panics ''down'', n)))
     \<lparr>Section = 0, N = 7, Tag = ''t'', Logger = Some [], Renew = None\<rparr> =
     (None, \<lparr>Section = 0, N = 7, Tag = ''t'',
             Logger = Some [Warn ''[wuid] panic. tag: t, reason: down''], Renew = None\<rparr>) \<and>
   renew_goroutine (Some (\<lambda>n. (Panics ''down'', n)))
     \<lparr>Section = 0, N = 7, Tag = ''t'', Logger = None, Renew = None\<rparr> =
     (None, \<lparr>Section = 0, N = 7, Tag = ''t'', Logger = None, Renew = None\<rparr>)"
proof -
  let ?w = "\<lparr>Section = 0, N = 7, Tag = ''t'', Logger = Some [], Renew = None\<rparr>"
  let ?v = "\<lparr>Section = 0, N = 7, Tag = ''t'', Logger = None, Renew = None\<rparr>"
  have a: "Logger ?w = Some [] \<and>
           call_renew (Some (\<lambda>n. (Returns (Some ''timeout''), n))) (N ?w) = (Returns (Some ''timeout''), 7)"
    by (simp add: call_renew_def)
  have b: "Logger ?w = Some [] \<and>
           call_renew (Some (\<lambda>n. (Returns None, 0x20000000000))) (N ?w) = (Returns None, 0x20000000000)"
    by (simp add: call_renew_def)
  have c: "Logger ?w = Some [] \<and>
           call_renew (Some (\<lambda>n. (Panics ''down'', n))) (N ?w) = (Panics ''down'', 7)"
    by (simp add: call_renew_def)
  have d: "Logger ?v = None" by simp
  note t1 = renew_goroutine_logs[where w = ?w and renew = "Some (\<lambda>n. (Returns (Some ''timeout''), n))"
                 and es = "[]" and e = "''timeout''" and n' = 7]
  note t2 = renew_goroutine_logs[where w = ?w and renew = "Some (\<lambda>n. (Returns None, 0x20000000000))"
                 and es = "[]" and n' = "0x20000000000"]
  note t3 = renew_goroutine_logs[where w = ?w and renew = "Some (\<lambda>n. (Panics ''down'', n))"
                 and es = "[]" and r = "''down''" and n' = 7]
  note t4 = renew_goroutine_logs[where w = ?v and renew = "Some (\<lambda>n. (Panics ''down'', n))"]
  have r1: "renew_goroutine (Some (\<lambda>n. (Returns (Some ''timeout''), n))) ?w =
     (None, \<lparr>Section = 0, N = 7, Tag = ''t'',
             Logger = Some [Warn ''[wuid] renew failed. tag: t, reason: timeout''], Renew = None\<rparr>)"
    using t1 a by (simp add: prod_eq_iff)
  have r2: "renew_goroutine (Some (\<lambda>n. (Returns None, 0x20000000000))) ?w =
     (None, \<lparr>Section = 0, N = 0x20000000000, Tag = ''t'',
             Logger = Some [Info ''[wuid] renew succeeded. tag: t''], Renew = None\<rparr>)"
    using t2 b by (simp add: prod_eq_iff)
  have r3: "renew_goroutine (Some (\<lambda>n. (Panics ''down'', n))) ?w =
     (None, \<lparr>Section = 0, N = 7, Tag = ''t'',
             Logger = Some [Warn ''[wuid] panic. tag: t, reason: down''], Renew = None\<rparr>)"
    using t3 c by (simp add: prod_eq_iff)
  have r4: "renew_goroutine (Some (\<lambda>n. (Panics ''down'', n))) ?v = (None, ?v)"
    using t4 d by (simp add: prod_eq_iff call_renew_def)
  from r1 r2 r3 r4 show ?thesis by blast
qed


text \<open>
  Claim C10. \<open>NewWUID\<close> starts the value at 0 and the options \<open>WithSection\<close> builds do
  not touch it. So the first \<open>Next\<close> on a freshly constructed generator returns 1, whose
  bits above the low 40 are all zero.
\<close>

theorem fresh_generator_first_id:
  assumes "\<forall>opt \<in> set opts. \<exists>s. WithSection s = Inr opt"
  shows "N (NewWUID tag lg opts) = 0 \<and>
         fst (Next (NewWUID tag lg opts)) = 1 \<and>
         drop_bit 40 (fst (Next (NewWUID tag lg opts))) = 0"
proof -
  have n: "N (NewWUID tag lg opts) = 0"
    unfolding NewWUID_def using fold_WithSection[OF assms] by simp
  then have x: "fst (Next (NewWUID tag lg opts)) = 1" by (simp add: Next_simps)
  have "drop_bit 40 (1 :: 64 word) = 0" by (simp add: drop_bit_eq_div)
  with n x show ?thesis by simp
qed

theorem fresh_generator_first_id_witness:
  "N (NewWUID ''t'' None [\<lambda>w. w\<lparr>Section := 3\<rparr>]) = 0 \<and>
   fst (Next (NewWUID ''t'' None [\<lambda>w. w\<lparr>Section := 3\<rparr>])) = 1 \<and>
   Section (NewWUID ''t'' None [\<lambda>w. w\<lparr>Section := 3\<rparr>]) = 3"
proof -
  have "WithSection 3 = Inr (\<lambda>w. w\<lparr>Section := 3\<rparr>)" by (simp add: WithSection_def)
  then have h: "\<forall>opt \<in> set [\<lambda>w. w\<lparr>Section := 3\<rparr>]. \<exists>s. WithSection s = Inr opt" by auto
  have "Section (NewWUID ''t'' None [\<lambda>w. w\<lparr>Section := 3\<rparr>]) = 3" by (simp add: NewWUID_def)
  with fresh_generator_first_id[OF h, of "''t''" None] show ?thesis by simp
qed

end
